theory Spec2Isabelle
  imports Main "HOL-Library.Word" "HOL-Library.Signed_Division"
begin

unbundle bit_operations_syntax

section \<open>Match scoring engine (table\_tennis.hpp)\<close>

text \<open>
  The C++ type \<open>int\<close> of the scoring engine is modelled by the mathematical integers:
  signed overflow is undefined behaviour in C++, so the model and the program agree on
  every execution the language defines. (On the AVR target of the Makefile \<open>int\<close> has 16
  bits: a score or a count of games won has to pass 32767 before the program leaves
  those executions.) Division and remainder are the truncating ones of C++ (\<open>sdiv\<close>,
  \<open>smod\<close>).
\<close>

datatype game_mode = to_11 | to_21

datatype serve_player = p1 | p2

record game_state =
  p1_games_won :: int
  p1_score :: int
  p2_games_won :: int
  p2_score :: int
  first_serve :: serve_player
  mode :: game_mode

text \<open>The default member initialisers of \<open>game_state\<close>.\<close>

definition game_state_init :: game_state where
  "game_state_init =
     \<lparr>p1_games_won = 0, p1_score = 0, p2_games_won = 0, p2_score = 0,
      first_serve = p1, mode = to_11\<rparr>"

definition MAX_UNDO :: int where
  "MAX_UNDO = 32"

text \<open>
  The object: \<open>_state\<close>, the array \<open>_history[MAX_UNDO]\<close> (a list of 32 entries) and
  \<open>_history_index\<close>. An array access \<open>_history[k]\<close> is written \<open>history t ! nat k\<close>;
  the theorems below show that in every reachable object the index is within
  \<open>-1 .. 31\<close>, so every access of the code is inside the array.
\<close>

record table_tennis =
  state :: game_state
  history :: "game_state list"
  history_index :: int

definition table_tennis_init :: table_tennis where
  "table_tennis_init =
     \<lparr>state = game_state_init,
      history = replicate (nat MAX_UNDO) game_state_init,
      history_index = -1\<rparr>"

definition get_p1_games_won :: "table_tennis \<Rightarrow> int" where
  "get_p1_games_won t = p1_games_won (state t)"

definition get_p2_games_won :: "table_tennis \<Rightarrow> int" where
  "get_p2_games_won t = p2_games_won (state t)"

definition get_p1_score :: "table_tennis \<Rightarrow> int" where
  "get_p1_score t = p1_score (state t)"

definition get_p2_score :: "table_tennis \<Rightarrow> int" where
  "get_p2_score t = p2_score (state t)"

definition deuce :: "table_tennis \<Rightarrow> bool" where
  "deuce t =
     (let deuce_points = (if mode (state t) = to_11 then 10 else 20)
      in get_p1_score t \<ge> deuce_points \<and> get_p2_score t \<ge> deuce_points)"

definition serve :: "table_tennis \<Rightarrow> serve_player" where
  "serve t =
     (let serve_interval = (if deuce t then 1 else (if mode (state t) = to_11 then 2 else 5));
          num_intervals = (get_p1_score t + get_p2_score t) sdiv serve_interval
      in if num_intervals smod 2 = 0
         then (if first_serve (state t) = p1 then p1 else p2)
         else (if first_serve (state t) = p1 then p2 else p1))"

text \<open>
  \<open>save_state\<close>: when the array is full, the loop
  \<open>for (i = 0; i < MAX_UNDO - 1; ++i) _history[i] = _history[i + 1]\<close> runs first.
\<close>

definition shift_history :: "game_state list \<Rightarrow> game_state list" where
  "shift_history h = fold (\<lambda>i h'. h'[i := h' ! (i + 1)]) [0 ..< nat (MAX_UNDO - 1)] h"

definition save_state :: "table_tennis \<Rightarrow> table_tennis" where
  "save_state t =
     (let t1 = (if history_index t = MAX_UNDO - 1
                then t\<lparr>history := shift_history (history t),
                       history_index := history_index t - 1\<rparr>
                else t);
          idx = history_index t1 + 1
      in t1\<lparr>history_index := idx, history := (history t1)[nat idx := state t1]\<rparr>)"

definition p1_wins :: "table_tennis \<Rightarrow> table_tennis" where
  "p1_wins t =
     t\<lparr>state := (state t)\<lparr>p1_games_won := p1_games_won (state t) + 1,
                             p1_score := 0, p2_score := 0\<rparr>\<rparr>"

definition p2_wins :: "table_tennis \<Rightarrow> table_tennis" where
  "p2_wins t =
     t\<lparr>state := (state t)\<lparr>p2_games_won := p2_games_won (state t) + 1,
                             p1_score := 0, p2_score := 0\<rparr>\<rparr>"

definition check_for_win :: "table_tennis \<Rightarrow> table_tennis" where
  "check_for_win t =
     (if deuce t then
        (if get_p1_score t \<ge> get_p2_score t + 2 then p1_wins t
         else if get_p2_score t \<ge> get_p1_score t + 2 then p2_wins t
         else t)
      else
        (let win = (if mode (state t) = to_11 then 11 else 21)
         in if get_p1_score t \<ge> win then p1_wins t
            else if get_p2_score t \<ge> win then p2_wins t
            else t))"

text \<open>
  The member functions \<open>p1_score()\<close> and \<open>p2_score()\<close>; the prefix keeps them apart
  from the fields of the same names.
\<close>

definition tt_p1_score :: "table_tennis \<Rightarrow> table_tennis" where
  "tt_p1_score t =
     (let t1 = save_state t;
          t2 = t1\<lparr>state := (state t1)\<lparr>p1_score := p1_score (state t1) + 1\<rparr>\<rparr>
      in check_for_win t2)"

definition tt_p2_score :: "table_tennis \<Rightarrow> table_tennis" where
  "tt_p2_score t =
     (let t1 = save_state t;
          t2 = t1\<lparr>state := (state t1)\<lparr>p2_score := p2_score (state t1) + 1\<rparr>\<rparr>
      in check_for_win t2)"

definition undo :: "table_tennis \<Rightarrow> table_tennis" where
  "undo t =
     (if history_index t \<ge> 0
      then t\<lparr>state := history t ! nat (history_index t),
             history_index := history_index t - 1\<rparr>
      else t)"

definition set_game_mode :: "game_mode \<Rightarrow> table_tennis \<Rightarrow> table_tennis" where
  "set_game_mode m t =
     (if get_p1_score t = 0 \<and> get_p2_score t = 0
      then t\<lparr>state := (state t)\<lparr>mode := m\<rparr>\<rparr>
      else t)"

definition set_first_serve :: "serve_player \<Rightarrow> table_tennis \<Rightarrow> table_tennis" where
  "set_first_serve first_serve_player t =
     (if get_p1_score t = 0 \<and> get_p2_score t = 0
      then t\<lparr>state := (state t)\<lparr>first_serve := first_serve_player\<rparr>\<rparr>
      else t)"

text \<open>
  The public interface as a datatype of calls, and the objects a caller can reach from
  the freshly constructed one.
\<close>

datatype tt_call =
  P1_score | P2_score | Undo | Set_game_mode game_mode | Set_first_serve serve_player

fun exec :: "tt_call \<Rightarrow> table_tennis \<Rightarrow> table_tennis" where
  "exec P1_score t = tt_p1_score t"
| "exec P2_score t = tt_p2_score t"
| "exec Undo t = undo t"
| "exec (Set_game_mode m) t = set_game_mode m t"
| "exec (Set_first_serve s) t = set_first_serve s t"

definition run :: "tt_call list \<Rightarrow> table_tennis \<Rightarrow> table_tennis" where
  "run cs t = fold exec cs t"

inductive reachable :: "table_tennis \<Rightarrow> bool" where
  reachable_init: "reachable table_tennis_init"
| reachable_exec: "reachable t \<Longrightarrow> reachable (exec c t)"

fun is_config :: "tt_call \<Rightarrow> bool" where
  "is_config (Set_game_mode m) = True"
| "is_config (Set_first_serve s) = True"
| "is_config c = False"

fun is_score :: "tt_call \<Rightarrow> bool" where
  "is_score P1_score = True"
| "is_score P2_score = True"
| "is_score c = False"

definition score_point :: "serve_player \<Rightarrow> table_tennis \<Rightarrow> table_tennis" where
  "score_point X t = (case X of p1 \<Rightarrow> tt_p1_score t | p2 \<Rightarrow> tt_p2_score t)"

subsection \<open>The scoring rules in the words of the specification\<close>

text \<open>
  These definitions follow the specification's sentences, not the code; the theorems
  compare them with the code. Players are named by \<open>serve_player\<close>, the only type of
  player names the program has.
\<close>

definition spec_deuce_threshold :: "game_mode \<Rightarrow> int" where
  "spec_deuce_threshold m = (case m of to_11 \<Rightarrow> 10 | to_21 \<Rightarrow> 20)"

definition spec_target :: "game_mode \<Rightarrow> int" where
  "spec_target m = (case m of to_11 \<Rightarrow> 11 | to_21 \<Rightarrow> 21)"

definition score_of :: "serve_player \<Rightarrow> game_state \<Rightarrow> int" where
  "score_of X s = (case X of p1 \<Rightarrow> p1_score s | p2 \<Rightarrow> p2_score s)"

definition games_won_of :: "serve_player \<Rightarrow> game_state \<Rightarrow> int" where
  "games_won_of X s = (case X of p1 \<Rightarrow> p1_games_won s | p2 \<Rightarrow> p2_games_won s)"

definition other_player :: "serve_player \<Rightarrow> serve_player" where
  "other_player X = (case X of p1 \<Rightarrow> p2 | p2 \<Rightarrow> p1)"

definition spec_in_deuce :: "game_state \<Rightarrow> bool" where
  "spec_in_deuce s =
     (p1_score s \<ge> spec_deuce_threshold (mode s) \<and> p2_score s \<ge> spec_deuce_threshold (mode s))"

text \<open>
  The win condition of player \<open>X\<close> on a state whose score already holds the new point:
  in deuce a lead of at least two, otherwise the target of the mode.
\<close>

definition spec_win_condition :: "serve_player \<Rightarrow> game_state \<Rightarrow> bool" where
  "spec_win_condition X s =
     (if spec_in_deuce s
      then score_of X s \<ge> score_of (other_player X) s + 2
      else score_of X s \<ge> spec_target (mode s))"

definition add_point :: "serve_player \<Rightarrow> game_state \<Rightarrow> game_state" where
  "add_point X s =
     (case X of p1 \<Rightarrow> s\<lparr>p1_score := p1_score s + 1\<rparr> | p2 \<Rightarrow> s\<lparr>p2_score := p2_score s + 1\<rparr>)"

text \<open>The server by the specification's formula, with the flooring division of HOL.\<close>

definition spec_serve :: "game_state \<Rightarrow> serve_player" where
  "spec_serve s =
     (let serve_interval =
            (if spec_in_deuce s then 1 else (case mode s of to_11 \<Rightarrow> 2 | to_21 \<Rightarrow> 5));
          intervals_elapsed = (p1_score s + p2_score s) div serve_interval
      in if even intervals_elapsed then first_serve s else other_player (first_serve s))"

subsection \<open>Invariants of the reachable objects\<close>

text \<open>
  A game state of a running match: the scores are not negative and either both are at
  most the deuce threshold, or both have reached it and differ by at most one.
\<close>

definition gs_inv :: "game_state \<Rightarrow> bool" where
  "gs_inv s =
     (let d = (if mode s = to_11 then 10 else 20)
      in 0 \<le> p1_score s \<and> 0 \<le> p2_score s \<and>
         (p1_score s \<le> d \<and> p2_score s \<le> d \<or>
          d \<le> p1_score s \<and> d \<le> p2_score s \<and> \<bar>p1_score s - p2_score s\<bar> \<le> 1))"

text \<open>
  The object: the index stays within \<open>-1 .. 31\<close>, the array keeps its 32 entries, and
  the current state and every valid history entry are states of a running match.
\<close>

definition tt_inv :: "table_tennis \<Rightarrow> bool" where
  "tt_inv t =
     (gs_inv (state t) \<and> length (history t) = 32 \<and>
      -1 \<le> history_index t \<and> history_index t \<le> 31 \<and>
      (\<forall>i < nat (history_index t + 1). gs_inv (history t ! i)))"

text \<open>
  The valid part of the history array, oldest entry first: the entries at the indices
  \<open>0 .. _history_index\<close>.
\<close>

definition hist :: "table_tennis \<Rightarrow> game_state list" where
  "hist t = take (nat (history_index t + 1)) (history t)"

section \<open>Debounced buttons (avr\_io.hpp, \<open>avr_button\<close>)\<close>

datatype action = none | pressed | released

text \<open>
  The button reads its input pin; the model takes the value that \<open>read()\<close> returns as the
  argument \<open>raw\<close> of \<open>check\<close> and keeps the pin's constant \<open>pull_up\<close> flag in the record.
  \<open>_counter\<close> is a \<open>uint8_t\<close> and wraps around at 256.
\<close>

record avr_button =
  pull_up :: bool
  counter :: "8 word"
  states :: "action list"
  current_action :: action

definition avr_button_init :: "bool \<Rightarrow> avr_button" where
  "avr_button_init pu =
     \<lparr>pull_up = pu, counter = 0, states = [released, released, released],
      current_action = released\<rparr>"

definition check :: "bool \<Rightarrow> avr_button \<Rightarrow> action \<times> avr_button" where
  "check raw b =
     (let v = (if pull_up b
               then (if raw then released else pressed)
               else (if raw then pressed else released));
          b1 = b\<lparr>states := (states b)[unat (counter b) mod 3 := v],
                  counter := counter b + 1\<rparr>
      in if states b1 ! 0 = states b1 ! 1 \<and> states b1 ! 1 = states b1 ! 2 then
           (let new_action = states b1 ! 0
            in if new_action = pressed \<and> current_action b1 = released
               then (pressed, b1\<lparr>current_action := new_action\<rparr>)
               else if new_action = released \<and> current_action b1 = pressed
               then (released, b1\<lparr>current_action := new_action\<rparr>)
               else (none, b1))
         else (none, b1))"

text \<open>The button after a sequence of raw samples, one call of \<open>check\<close> for each.\<close>

definition feed :: "bool list \<Rightarrow> avr_button \<Rightarrow> avr_button" where
  "feed raws b = fold (\<lambda>raw b'. snd (check raw b')) raws b"

text \<open>The three slots hold one and the same state.\<close>

definition slots_agree :: "avr_button \<Rightarrow> bool" where
  "slots_agree b = (states b ! 0 = states b ! 1 \<and> states b ! 1 = states b ! 2)"

text \<open>
  Reachable buttons: three slots, each of them and the latched state either \<open>pressed\<close>
  or \<open>released\<close>.
\<close>

definition button_inv :: "avr_button \<Rightarrow> bool" where
  "button_inv b =
     (length (states b) = 3 \<and> list_all (\<lambda>a. a = pressed \<or> a = released) (states b) \<and>
      (current_action b = pressed \<or> current_action b = released))"

text \<open>
  The classified state of a raw sample in the words of the specification: the sample is
  inverted under the pull-up convention, where electrically low means pressed.
\<close>

definition spec_classify :: "bool \<Rightarrow> bool \<Rightarrow> action" where
  "spec_classify pu raw = (if raw \<noteq> pu then pressed else released)"

section \<open>Seven segment displays (avr\_io.hpp)\<close>

definition SEG_A :: "8 word" where "SEG_A = 0b00000001"
definition SEG_B :: "8 word" where "SEG_B = 0b00000010"
definition SEG_C :: "8 word" where "SEG_C = 0b00000100"
definition SEG_D :: "8 word" where "SEG_D = 0b00001000"
definition SEG_E :: "8 word" where "SEG_E = 0b00010000"
definition SEG_F :: "8 word" where "SEG_F = 0b00100000"
definition SEG_G :: "8 word" where "SEG_G = 0b01000000"
definition SEG_DP :: "8 word" where "SEG_DP = 0b10000000"

definition SEVSEG :: "8 word list" where
  "SEVSEG =
    [SEG_A OR SEG_B OR SEG_C OR SEG_D OR SEG_E OR SEG_F,
     SEG_B OR SEG_C,
     SEG_A OR SEG_B OR SEG_D OR SEG_E OR SEG_G,
     SEG_A OR SEG_B OR SEG_C OR SEG_D OR SEG_G,
     SEG_B OR SEG_C OR SEG_F OR SEG_G,
     SEG_A OR SEG_C OR SEG_D OR SEG_F OR SEG_G,
     SEG_C OR SEG_D OR SEG_E OR SEG_F OR SEG_G,
     SEG_A OR SEG_B OR SEG_C,
     SEG_A OR SEG_B OR SEG_C OR SEG_D OR SEG_E OR SEG_F OR SEG_G,
     SEG_A OR SEG_B OR SEG_C OR SEG_F OR SEG_G,
     SEG_A OR SEG_B OR SEG_C OR SEG_E OR SEG_F OR SEG_G,
     SEG_C OR SEG_D OR SEG_E OR SEG_F OR SEG_G,
     SEG_A OR SEG_D OR SEG_E OR SEG_F,
     SEG_B OR SEG_C OR SEG_D OR SEG_E OR SEG_G,
     SEG_A OR SEG_D OR SEG_E OR SEG_F OR SEG_G,
     SEG_A OR SEG_E OR SEG_F OR SEG_G]"

text \<open>
  An output pin is the null pin, whose \<open>set\<close> does nothing, or a real pin, whose level is
  the bit of its port register.
\<close>

datatype avr_digital_output_pin_interface =
  avr_digital_output_pin_null | avr_digital_output_pin bool

fun pin_set :: "bool \<Rightarrow> avr_digital_output_pin_interface \<Rightarrow> avr_digital_output_pin_interface" where
  "pin_set high avr_digital_output_pin_null = avr_digital_output_pin_null"
| "pin_set high (avr_digital_output_pin level) = avr_digital_output_pin high"

text \<open>
  \<open>avr_seven_segment_pins\<close>: the eight segment pins and the mask on display. Its member
  functions carry the prefix \<open>seg_\<close>, those of \<open>avr_seven_segment_display\<close> keep their names.
  The parameter \<open>mask\<close> of the source is \<open>msk\<close> here, \<open>mask\<close> being a constant of the word
  library. The test \<open>mask & (1 << i)\<close> of bit \<open>i\<close> is \<open>msk AND push_bit i 1 \<noteq> 0\<close>.
\<close>

record avr_seven_segment_pins =
  segs :: "avr_digital_output_pin_interface list"
  current_display :: "8 word"

definition seg_display_custom :: "8 word \<Rightarrow> avr_seven_segment_pins \<Rightarrow> avr_seven_segment_pins" where
  "seg_display_custom msk sp =
     sp\<lparr>segs := fold (\<lambda>i ps. ps[i := pin_set (msk AND push_bit i 1 \<noteq> 0) (ps ! i)])
                     [0 ..< 8] (segs sp),
        current_display := msk\<rparr>"

definition seg_display_decimal :: "8 word \<Rightarrow> avr_seven_segment_pins \<Rightarrow> avr_seven_segment_pins" where
  "seg_display_decimal number sp = seg_display_custom (SEVSEG ! unat (number mod 10)) sp"

definition seg_display_decimal_point :: "bool \<Rightarrow> avr_seven_segment_pins \<Rightarrow> avr_seven_segment_pins" where
  "seg_display_decimal_point display sp =
     (if display then seg_display_custom (current_display sp OR SEG_DP) sp
      else seg_display_custom (current_display sp AND NOT SEG_DP) sp)"

definition seg_clear :: "avr_seven_segment_pins \<Rightarrow> avr_seven_segment_pins" where
  "seg_clear sp = seg_display_custom 0 sp"

text \<open>
  \<open>avr_seven_segment_display<num_digits_t>\<close>: the array \<open>_digits\<close> has \<open>num_digits_t\<close>
  entries, so the template argument is the length of the list. The record holds the
  segment pins object that the display refers to.
\<close>

record avr_seven_segment_display =
  seg :: avr_seven_segment_pins
  colon :: avr_digital_output_pin_interface
  digits :: "avr_digital_output_pin_interface list"

definition num_digits_t :: "avr_seven_segment_display \<Rightarrow> nat" where
  "num_digits_t d = length (digits d)"

definition clear_digits :: "avr_seven_segment_display \<Rightarrow> avr_seven_segment_display" where
  "clear_digits d =
     d\<lparr>digits := fold (\<lambda>i ds. ds[i := pin_set False (ds ! i)]) [0 ..< num_digits_t d] (digits d)\<rparr>"

text \<open>
  One round of the loop of \<open>display_decimal\<close> for the digit \<open>i\<close>. The loop state is the
  remaining number, the display, and the frames shown so far: \<open>_delay_ms\<close> holds the
  display still for three milliseconds, and the model records the display as it stands
  during that time. The comparisons of the \<open>uint8_t\<close> index with the \<open>int8_t\<close> decimal
  point are comparisons of \<open>int\<close> after promotion.
\<close>

definition display_decimal_step ::
  "8 word \<Rightarrow> nat \<Rightarrow> 8 word \<times> avr_seven_segment_display \<times> avr_seven_segment_display list
     \<Rightarrow> 8 word \<times> avr_seven_segment_display \<times> avr_seven_segment_display list" where
  "display_decimal_step decimal_point i st =
     (case st of (number, d, frames) \<Rightarrow>
        (let (sp1, number1) =
               (if number \<noteq> 0
                then (seg_display_decimal (number mod 10) (seg d), number div 10)
                else if i = 0 \<or> (sint decimal_point \<ge> 0 \<and> int i \<le> sint decimal_point)
                then (seg_display_decimal 0 (seg d), number)
                else (seg_clear (seg d), number));
             sp2 = (if int i = sint decimal_point then seg_display_decimal_point True sp1
                    else sp1);
             d1 = d\<lparr>seg := sp2, digits := (digits d)[i := pin_set True (digits d ! i)]\<rparr>;
             d2 = d1\<lparr>digits := (digits d1)[i := pin_set False (digits d1 ! i)]\<rparr>;
             d3 = d2\<lparr>seg := seg_clear (seg d2)\<rparr>
         in (number1, d3, frames @ [d1])))"

text \<open>\<open>display_decimal\<close> returns the frames it showed, in order, and the display it leaves.\<close>

definition display_decimal ::
  "8 word \<Rightarrow> 8 word \<Rightarrow> avr_seven_segment_display
     \<Rightarrow> avr_seven_segment_display list \<times> avr_seven_segment_display" where
  "display_decimal number decimal_point d =
     (let d0 = clear_digits d;
          (number', d', frames) =
             fold (display_decimal_step decimal_point) [0 ..< num_digits_t d0] (number, d0, [])
      in (frames, d'))"

text \<open>The call with the default argument \<open>decimal_point = -1\<close>.\<close>

definition display_decimal_default ::
  "8 word \<Rightarrow> avr_seven_segment_display
     \<Rightarrow> avr_seven_segment_display list \<times> avr_seven_segment_display" where
  "display_decimal_default number d = display_decimal number (-1) d"

text \<open>
  \<open>display_custom\<close> of the display. The guard is \<open>digit <= num_digits_t\<close>; the access
  \<open>_digits[digit]\<close> at \<open>digit = num_digits_t\<close> is past the end of the array, which is
  undefined behaviour: the model stops there with \<open>Out_of_bounds\<close> and the display as the
  statements before the access left it.
\<close>

datatype 'a outcome = Done 'a | Out_of_bounds 'a

definition display_custom ::
  "8 word \<Rightarrow> 8 word \<Rightarrow> avr_seven_segment_display \<Rightarrow> avr_seven_segment_display outcome" where
  "display_custom msk digit d =
     (if unat digit \<le> num_digits_t d then
        (let d1 = clear_digits d;
             d2 = d1\<lparr>seg := seg_display_custom msk (seg d1)\<rparr>
         in if unat digit < length (digits d2)
            then Done (d2\<lparr>digits := (digits d2)[unat digit := pin_set True (digits d2 ! unat digit)]\<rparr>)
            else Out_of_bounds d2)
      else Done d)"

text \<open>
  The wiring of the score keeper (scorgasmatron.cpp): seven real segment pins and a null
  decimal point pin, and the two-digit score display of player one with a null colon.
  All port registers are 0 after reset.
\<close>

definition seven_segment_pins :: avr_seven_segment_pins where
  "seven_segment_pins =
     \<lparr>segs = replicate 7 (avr_digital_output_pin False) @ [avr_digital_output_pin_null],
      current_display = 0\<rparr>"

definition p1_score_display :: avr_seven_segment_display where
  "p1_score_display =
     \<lparr>seg = seven_segment_pins, colon = avr_digital_output_pin_null,
      digits = [avr_digital_output_pin False, avr_digital_output_pin False]\<rparr>"

definition p1_games_won_display :: avr_seven_segment_display where
  "p1_games_won_display =
     \<lparr>seg = seven_segment_pins, colon = avr_digital_output_pin_null,
      digits = [avr_digital_output_pin False]\<rparr>"

subsection \<open>The digits in the words of the specification\<close>

text \<open>
  The pattern of digit \<open>i\<close>: the glyph of the remaining value modulo 10 while the
  remaining value (the value divided by 10 once for each digit before) is not zero;
  else the glyph of 0 at digit 0 and up to a requested decimal point; else blank.
\<close>

definition spec_digit_glyph :: "nat \<Rightarrow> int \<Rightarrow> nat \<Rightarrow> 8 word" where
  "spec_digit_glyph v dp i =
     (let remaining = v div 10 ^ i
      in if remaining \<noteq> 0 then SEVSEG ! (remaining mod 10)
         else if i = 0 \<or> (0 \<le> dp \<and> int i \<le> dp) then SEVSEG ! 0
         else 0)"

text \<open>The pattern of digit \<open>i\<close> with the decimal point segment added at the requested digit.\<close>

definition digit_pattern :: "8 word \<Rightarrow> 8 word \<Rightarrow> nat \<Rightarrow> 8 word" where
  "digit_pattern v dp i =
     (if int i = sint dp
      then spec_digit_glyph (unat v) (sint dp) i OR SEG_DP
      else spec_digit_glyph (unat v) (sint dp) i)"

text \<open>
  The invariant of the loop of \<open>display_decimal\<close> before round \<open>k\<close>: the remaining number is
  the value divided by \<open>10 ^ k\<close>, the digit selects are as \<open>clear_digits\<close> left them, and
  the frames shown so far carry the patterns of the digits \<open>0 .. k - 1\<close>, each with its own
  digit select switched on.
\<close>

definition loop_inv ::
  "8 word \<Rightarrow> 8 word \<Rightarrow> avr_seven_segment_display \<Rightarrow> nat
     \<Rightarrow> 8 word \<times> avr_seven_segment_display \<times> avr_seven_segment_display list \<Rightarrow> bool" where
  "loop_inv v dp d0 k st =
     (case st of (n, d, fs) \<Rightarrow>
        unat n = unat v div 10 ^ k \<and> digits d = digits d0 \<and> length fs = k \<and>
        (\<forall>i < k. current_display (seg (fs ! i)) = digit_pattern v dp i \<and>
                  digits (fs ! i) = (digits d0)[i := pin_set True (digits d0 ! i)]))"

text \<open>
  The segment pins show the mask on display: each of the eight pins is the pin of the
  wiring \<open>ps0\<close> set to the level of its bit of the mask (a null pin stays the null pin).
\<close>

definition seg_shows :: "avr_digital_output_pin_interface list \<Rightarrow> avr_seven_segment_pins \<Rightarrow> bool" where
  "seg_shows ps0 sp =
     (length (segs sp) = 8 \<and>
      (\<forall>j < 8. segs sp ! j = pin_set (bit (current_display sp) j) (ps0 ! j)))"

text \<open>The segment pins are those of the wiring \<open>ps0\<close>, at whatever levels.\<close>

definition seg_same_pins :: "avr_digital_output_pin_interface list \<Rightarrow> avr_seven_segment_pins \<Rightarrow> bool" where
  "seg_same_pins ps0 sp =
     (length (segs sp) = 8 \<and>
      (\<forall>j < 8. pin_set False (segs sp ! j) = pin_set False (ps0 ! j)))"

text \<open>
  The second invariant of the loop of \<open>display_decimal\<close>: in every frame shown so far the
  segment pins show the mask of that frame.
\<close>

definition pins_inv ::
  "avr_digital_output_pin_interface list \<Rightarrow> nat
     \<Rightarrow> 8 word \<times> avr_seven_segment_display \<times> avr_seven_segment_display list \<Rightarrow> bool" where
  "pins_inv ps0 k st =
     (case st of (n, d, fs) \<Rightarrow>
        seg_same_pins ps0 (seg d) \<and> length fs = k \<and>
        (\<forall>i < k. seg_shows ps0 (seg (fs ! i))))"

section \<open>Facts about the scoring engine\<close>

lemma reachable_run: "reachable t \<Longrightarrow> reachable (run cs t)"
  unfolding run_def
  by (induction cs arbitrary: t) (auto intro: reachable_exec)

lemma config_locked_step:
  assumes "p1_score (state t) \<noteq> 0 \<or> p2_score (state t) \<noteq> 0" and "is_config c"
  shows "exec c t = t"
  using assms
  by (cases c) (auto simp: set_game_mode_def set_first_serve_def get_p1_score_def get_p2_score_def)

text \<open>
  C8. Once either score is nonzero, any number of calls of \<open>set_game_mode\<close> and
  \<open>set_first_serve\<close>, with any arguments, leaves the whole object (the game state, the
  history array and the history index) as it was.
\<close>

theorem config_locked_mid_game:
  assumes "p1_score (state t) \<noteq> 0 \<or> p2_score (state t) \<noteq> 0"
    and "list_all is_config cs"
  shows "run cs t = t"
  using assms(2) unfolding run_def
  by (induction cs) (simp_all add: config_locked_step [OF assms(1)])

theorem config_locked_mid_game_witness:
  "p1_score (state (run [P1_score] table_tennis_init)) = 1 \<and>
   list_all is_config [Set_game_mode to_21, Set_first_serve p2, Set_game_mode to_11] \<and>
   run [Set_game_mode to_21, Set_first_serve p2, Set_game_mode to_11]
       (run [P1_score] table_tennis_init) = run [P1_score] table_tennis_init"
proof -
  have a: "p1_score (state (run [P1_score] table_tennis_init)) = 1"
    by code_simp
  have b: "list_all is_config [Set_game_mode to_21, Set_first_serve p2, Set_game_mode to_11]"
    by simp
  from a have "p1_score (state (run [P1_score] table_tennis_init)) \<noteq> 0 \<or>
               p2_score (state (run [P1_score] table_tennis_init)) \<noteq> 0" by simp
  from config_locked_mid_game [OF this b] a b show ?thesis by simp
qed

lemma shift_fold_length:
  "length (fold (\<lambda>i h'. h'[i := h' ! Suc i]) [0 ..< n] h) = length h"
  by (induction n) simp_all

lemma shift_fold_nth:
  "n < length h \<Longrightarrow> i < length h \<Longrightarrow>
   fold (\<lambda>i h'. h'[i := h' ! Suc i]) [0 ..< n] h ! i = (if i < n then h ! Suc i else h ! i)"
  by (induction n arbitrary: i) (auto simp: shift_fold_length nth_list_update less_Suc_eq)

lemma shift_history_length: "length (shift_history h) = length h"
  by (simp add: shift_history_def shift_fold_length)

lemma shift_history_nth:
  "length h = 32 \<Longrightarrow> i < 32 \<Longrightarrow>
   shift_history h ! i = (if i < 31 then h ! Suc i else h ! i)"
  by (simp add: shift_history_def MAX_UNDO_def shift_fold_nth)

lemma save_state_state: "state (save_state t) = state t"
  by (simp add: save_state_def Let_def)

lemma save_state_index:
  "history_index (save_state t) = (if history_index t = 31 then 31 else history_index t + 1)"
  by (simp add: save_state_def Let_def MAX_UNDO_def)

lemma save_state_length: "length (history (save_state t)) = length (history t)"
  by (simp add: save_state_def Let_def shift_history_length)

lemma save_state_nth:
  assumes "length (history t) = 32" "-1 \<le> history_index t" "history_index t \<le> 31" "i < 32"
  shows "history (save_state t) ! i =
     (if history_index t = 31
      then (if i < 31 then history t ! Suc i else state t)
      else (if i = nat (history_index t + 1) then state t else history t ! i))"
  using assms
  by (auto simp: save_state_def Let_def MAX_UNDO_def shift_history_length shift_history_nth nth_list_update)

lemma save_state_inv: "tt_inv t \<Longrightarrow> tt_inv (save_state t)"
  unfolding tt_inv_def
  apply (simp add: save_state_state save_state_index save_state_length)
  apply (intro conjI impI allI)
   apply (auto simp: save_state_nth)
  done

lemmas getters = get_p1_score_def get_p2_score_def get_p1_games_won_def get_p2_games_won_def

lemma check_for_win_history [simp]:
  "history (check_for_win t) = history t" "history_index (check_for_win t) = history_index t"
  by (simp_all add: check_for_win_def p1_wins_def p2_wins_def Let_def)

lemma check_for_win_gs_inv:
  assumes "gs_inv ((state t)\<lparr>p1_score := p1_score (state t) - 1\<rparr>) \<or>
           gs_inv ((state t)\<lparr>p2_score := p2_score (state t) - 1\<rparr>)"
  shows "gs_inv (state (check_for_win t))"
  using assms
  by (auto simp: gs_inv_def check_for_win_def deuce_def getters p1_wins_def p2_wins_def Let_def
           split: if_splits)

lemma tt_p1_score_inv: "tt_inv t \<Longrightarrow> tt_inv (tt_p1_score t)"
proof -
  assume a: "tt_inv t"
  let ?t1 = "save_state t"
  let ?t2 = "?t1\<lparr>state := (state ?t1)\<lparr>p1_score := p1_score (state ?t1) + 1\<rparr>\<rparr>"
  have i1: "tt_inv ?t1" using a by (rule save_state_inv)
  have "gs_inv ((state ?t2)\<lparr>p1_score := p1_score (state ?t2) - 1\<rparr>)"
    using i1 by (simp add: tt_inv_def)
  then have "gs_inv (state (check_for_win ?t2))"
    by (intro check_for_win_gs_inv disjI1)
  then show ?thesis
    using i1 by (simp add: tt_inv_def tt_p1_score_def Let_def)
qed

lemma tt_p2_score_inv: "tt_inv t \<Longrightarrow> tt_inv (tt_p2_score t)"
proof -
  assume a: "tt_inv t"
  let ?t1 = "save_state t"
  let ?t2 = "?t1\<lparr>state := (state ?t1)\<lparr>p2_score := p2_score (state ?t1) + 1\<rparr>\<rparr>"
  have i1: "tt_inv ?t1" using a by (rule save_state_inv)
  have "gs_inv ((state ?t2)\<lparr>p2_score := p2_score (state ?t2) - 1\<rparr>)"
    using i1 by (simp add: tt_inv_def)
  then have "gs_inv (state (check_for_win ?t2))"
    by (intro check_for_win_gs_inv disjI2)
  then show ?thesis
    using i1 by (simp add: tt_inv_def tt_p2_score_def Let_def)
qed

lemma undo_inv: "tt_inv t \<Longrightarrow> tt_inv (undo t)"
  by (auto simp: tt_inv_def undo_def)

lemma set_game_mode_inv: "tt_inv t \<Longrightarrow> tt_inv (set_game_mode m t)"
  by (auto simp: tt_inv_def set_game_mode_def getters gs_inv_def)

lemma set_first_serve_inv: "tt_inv t \<Longrightarrow> tt_inv (set_first_serve s t)"
  by (auto simp: tt_inv_def set_first_serve_def getters gs_inv_def)

lemma init_inv: "tt_inv table_tennis_init"
  by (simp add: tt_inv_def table_tennis_init_def gs_inv_def game_state_init_def MAX_UNDO_def)

lemma exec_inv: "tt_inv t \<Longrightarrow> tt_inv (exec c t)"
  by (cases c)
     (simp_all add: tt_p1_score_inv tt_p2_score_inv undo_inv set_game_mode_inv set_first_serve_inv)

lemma reachable_inv: "reachable t \<Longrightarrow> tt_inv t"
  by (induction rule: reachable.induct) (simp_all add: init_inv exec_inv)

lemmas spec_defs = spec_deuce_threshold_def spec_target_def score_of_def games_won_of_def
  other_player_def spec_in_deuce_def spec_win_condition_def add_point_def




lemma undo_save_state:
  assumes "length (history t) = 32" "-1 \<le> history_index t" "history_index t \<le> 31"
  shows "history (save_state t) ! nat (history_index (save_state t)) = state t"
  using assms by (auto simp: save_state_nth save_state_index)

text \<open>
  C2. In every reachable object, scoring a point for either player and then calling
  \<open>undo\<close> gives back the game state of before the point (both scores, both games won,
  the first server and the mode), also when the point won a game.
\<close>

theorem score_point_undo_restores_state:
  assumes "reachable t"
  shows "state (undo (score_point X t)) = state t"
proof -
  have inv: "tt_inv t" using assms by (rule reachable_inv)
  have idx: "0 \<le> history_index (score_point X t)"
    "history_index (score_point X t) = history_index (save_state t)"
    "history (score_point X t) = history (save_state t)"
    using inv
    by (cases X; simp add: score_point_def tt_p1_score_def tt_p2_score_def Let_def
          save_state_index tt_inv_def)+
  then show ?thesis
    using inv undo_save_state [of t] by (simp add: undo_def tt_inv_def)
qed

theorem score_point_undo_restores_state_witness:
  "reachable (run (replicate 10 P1_score) table_tennis_init) \<and>
   state (undo (score_point p1 (run (replicate 10 P1_score) table_tennis_init))) =
     game_state_init\<lparr>p1_score := 10\<rparr>"
proof -
  let ?t = "run (replicate 10 P1_score) table_tennis_init"
  have r: "reachable ?t" by (rule reachable_run [OF reachable_init])
  have s: "state ?t = game_state_init\<lparr>p1_score := 10\<rparr>" by code_simp
  from score_point_undo_restores_state [OF r, of p1] s r show ?thesis by simp
qed

lemma sdiv_nonneg: "0 \<le> a \<Longrightarrow> 0 < b \<Longrightarrow> a sdiv b = a div (b::int)"
  by (simp add: signed_divide_int_def sgn_if)

lemma smod_2_zero: "(n smod 2 = 0) = even (n::int)"
  by (auto simp: signed_modulo_int_def sgn_if)

lemma serve_spec_gs:
  assumes "0 \<le> p1_score (state t)" "0 \<le> p2_score (state t)"
  shows "serve t = spec_serve (state t)"
proof -
  have s: "0 \<le> p1_score (state t) + p2_score (state t)" using assms by simp
  show ?thesis
    by (cases "mode (state t)"; cases "first_serve (state t)")
       (simp_all add: serve_def spec_serve_def spec_defs deuce_def getters Let_def
          sdiv_nonneg [OF s] smod_2_zero)
qed

lemma score_point_inv: "tt_inv t \<Longrightarrow> tt_inv (score_point X t)"
  by (cases X) (simp_all add: score_point_def tt_p1_score_inv tt_p2_score_inv)

lemma tt_inv_nonneg: "tt_inv t \<Longrightarrow> 0 \<le> p1_score (state t) \<and> 0 \<le> p2_score (state t)"
  by (simp add: tt_inv_def gs_inv_def Let_def)

lemma serve_spec_inv: "tt_inv t \<Longrightarrow> serve t = spec_serve (state t)"
  using tt_inv_nonneg [of t] by (simp add: serve_spec_gs)

lemma deuce_flip_gs:
  assumes "gs_inv (state t)" "deuce t"
  shows "spec_serve (state (score_point X t)) \<noteq> spec_serve (state t)"
proof -
  let ?a = "p1_score (state t)" and ?b = "p2_score (state t)"
  have "\<bar>?a - ?b\<bar> \<le> 1"
    using assms
    by (cases "mode (state t)") (auto simp: gs_inv_def deuce_def getters Let_def)
  then consider "?a = ?b" | "?a = ?b + 1" | "?b = ?a + 1"
    by linarith
  then show ?thesis
  proof cases
    case 1
    with assms show ?thesis
      by (cases X; cases "mode (state t)"; cases "first_serve (state t)")
         (simp_all add: spec_serve_def spec_defs score_point_def tt_p1_score_def
           tt_p2_score_def Let_def save_state_state check_for_win_def deuce_def getters
           p1_wins_def p2_wins_def)
  next
    case 2
    with assms show ?thesis
      by (cases X; cases "mode (state t)"; cases "first_serve (state t)")
         (simp_all add: spec_serve_def spec_defs score_point_def tt_p1_score_def
           tt_p2_score_def Let_def save_state_state check_for_win_def deuce_def getters
           p1_wins_def p2_wins_def)
  next
    case 3
    with assms show ?thesis
      by (cases X; cases "mode (state t)"; cases "first_serve (state t)")
         (simp_all add: spec_serve_def spec_defs score_point_def tt_p1_score_def
           tt_p2_score_def Let_def save_state_state check_for_win_def deuce_def getters
           p1_wins_def p2_wins_def)
  qed
qed

lemma deuce_flip:
  assumes "tt_inv t" "deuce t"
  shows "serve (score_point X t) \<noteq> serve t"
  using deuce_flip_gs [of t X] assms serve_spec_inv [OF score_point_inv [OF assms(1)], of X]
    serve_spec_inv [OF assms(1)]
  by (simp add: tt_inv_def)

text \<open>
  C4. In every reachable object \<open>serve\<close> returns the player of the specification's
  formula: the interval is 1 in deuce, else 2 in \<open>to_11\<close> and 5 in \<open>to_21\<close>; the number of
  intervals is the floor of the combined score divided by the interval; the first server
  serves when it is even, the other player when it is odd. With mode \<open>to_11\<close> and first
  server \<open>p1\<close>: \<open>p1\<close> serves at (0,0) and at (0,1), \<open>p2\<close> serves at a combined score of
  2, and from (10,10) on the server changes with every point scored.
\<close>

theorem serve_follows_interval_rule:
  assumes "reachable t"
  shows "serve t = spec_serve (state t) \<and>
    (mode (state t) = to_11 \<and> first_serve (state t) = p1 \<longrightarrow>
       (p1_score (state t) = 0 \<and> p2_score (state t) = 0 \<longrightarrow> serve t = p1) \<and>
       (p1_score (state t) = 0 \<and> p2_score (state t) = 1 \<longrightarrow> serve t = p1) \<and>
       (p1_score (state t) + p2_score (state t) = 2 \<longrightarrow> serve t = p2) \<and>
       (10 \<le> p1_score (state t) \<and> 10 \<le> p2_score (state t) \<longrightarrow>
          serve (tt_p1_score t) \<noteq> serve t \<and> serve (tt_p2_score t) \<noteq> serve t))"
proof -
  have inv: "tt_inv t" using assms by (rule reachable_inv)
  have a: "serve t = spec_serve (state t)" using inv by (rule serve_spec_inv)
  have b: "mode (state t) = to_11 \<Longrightarrow> 10 \<le> p1_score (state t) \<Longrightarrow> 10 \<le> p2_score (state t)
      \<Longrightarrow> serve (tt_p1_score t) \<noteq> serve t \<and> serve (tt_p2_score t) \<noteq> serve t"
    using deuce_flip [OF inv, of p1] deuce_flip [OF inv, of p2]
    by (simp add: deuce_def getters score_point_def)
  have c: "mode (state t) = to_11 \<Longrightarrow> first_serve (state t) = p1 \<Longrightarrow>
     p1_score (state t) + p2_score (state t) = 2 \<Longrightarrow> spec_serve (state t) = p2"
    using tt_inv_nonneg [OF inv]
    by (simp add: spec_serve_def spec_defs Let_def)
  have d: "mode (state t) = to_11 \<Longrightarrow> first_serve (state t) = p1 \<Longrightarrow>
     p1_score (state t) = 0 \<Longrightarrow> p2_score (state t) = 0 \<or> p2_score (state t) = 1 \<Longrightarrow> spec_serve (state t) = p1"
    by (auto simp add: spec_serve_def spec_defs Let_def)
  show ?thesis using a b c d by simp
qed

theorem serve_follows_interval_rule_witness:
  "reachable table_tennis_init \<and> serve table_tennis_init = p1 \<and>
   reachable (run [P2_score] table_tennis_init) \<and>
   p2_score (state (run [P2_score] table_tennis_init)) = 1 \<and>
   serve (run [P2_score] table_tennis_init) = p1 \<and>
   reachable (run [P2_score, P1_score] table_tennis_init) \<and>
   serve (run [P2_score, P1_score] table_tennis_init) = p2 \<and>
   reachable (run (replicate 10 P1_score @ replicate 10 P2_score) table_tennis_init) \<and>
   state (run (replicate 10 P1_score @ replicate 10 P2_score) table_tennis_init) =
     game_state_init\<lparr>p1_score := 10, p2_score := 10\<rparr> \<and>
   serve (run (replicate 10 P1_score @ replicate 10 P2_score) table_tennis_init) = p1 \<and>
   serve (tt_p1_score (run (replicate 10 P1_score @ replicate 10 P2_score) table_tennis_init)) = p2 \<and>
   serve (tt_p2_score (run (replicate 10 P1_score @ replicate 10 P2_score) table_tennis_init)) = p2"
proof -
  let ?t1 = "run [P2_score] table_tennis_init"
  let ?t2 = "run [P2_score, P1_score] table_tennis_init"
  let ?t3 = "run (replicate 10 P1_score @ replicate 10 P2_score) table_tennis_init"
  have r0: "reachable table_tennis_init" by (rule reachable_init)
  have r1: "reachable ?t1" by (rule reachable_run [OF reachable_init])
  have r2: "reachable ?t2" by (rule reachable_run [OF reachable_init])
  have r3: "reachable ?t3" by (rule reachable_run [OF reachable_init])
  have s0: "state table_tennis_init = game_state_init" by code_simp
  have s1: "state ?t1 = game_state_init\<lparr>p2_score := 1\<rparr>" by code_simp
  have s2: "state ?t2 = game_state_init\<lparr>p1_score := 1, p2_score := 1\<rparr>" by code_simp
  have s3: "state ?t3 = game_state_init\<lparr>p1_score := 10, p2_score := 10\<rparr>" by code_simp
  have e0: "serve table_tennis_init = p1"
    using serve_follows_interval_rule [OF r0, THEN conjunct2] s0 by (simp add: game_state_init_def)
  have e1: "serve ?t1 = p1"
    using serve_follows_interval_rule [OF r1, THEN conjunct2] s1 by (simp add: game_state_init_def)
  have e2: "serve ?t2 = p2"
    using serve_follows_interval_rule [OF r2, THEN conjunct2] s2 by (simp add: game_state_init_def)
  have e3: "serve ?t3 = p1"
    using s3 by (simp add: serve_def deuce_def getters game_state_init_def)
  have f3: "serve (tt_p1_score ?t3) \<noteq> serve ?t3 \<and> serve (tt_p2_score ?t3) \<noteq> serve ?t3"
    using serve_follows_interval_rule [OF r3, THEN conjunct2] s3 by (simp add: game_state_init_def)
  have g3: "serve (tt_p1_score ?t3) = p2 \<and> serve (tt_p2_score ?t3) = p2"
    using f3 e3 by (metis serve_player.exhaust)
  show ?thesis using r0 r1 r2 r3 s1 s3 e0 e1 e2 e3 g3 by simp
qed

text \<open>
  C9. Whenever both scores are 0, \<open>set_game_mode\<close> sets the mode to its argument and
  \<open>set_first_serve\<close> sets the first server to its argument, whatever the games won: the
  guard reads the two scores only.
\<close>

theorem config_open_at_zero_scores:
  assumes "p1_score (state t) = 0" and "p2_score (state t) = 0"
  shows "mode (state (set_game_mode m t)) = m \<and>
         first_serve (state (set_first_serve s t)) = s"
  using assms by (simp add: set_game_mode_def set_first_serve_def getters)

theorem config_open_at_zero_scores_witness:
  "reachable (run (replicate 11 P1_score) table_tennis_init) \<and>
   p1_games_won (state (run (replicate 11 P1_score) table_tennis_init)) = 1 \<and>
   p1_score (state (run (replicate 11 P1_score) table_tennis_init)) = 0 \<and>
   p2_score (state (run (replicate 11 P1_score) table_tennis_init)) = 0 \<and>
   mode (state (set_game_mode to_21 (run (replicate 11 P1_score) table_tennis_init))) = to_21 \<and>
   first_serve (state (set_first_serve p2 (run (replicate 11 P1_score) table_tennis_init))) = p2"
proof -
  let ?t = "run (replicate 11 P1_score) table_tennis_init"
  have r: "reachable ?t" by (rule reachable_run [OF reachable_init])
  have a: "p1_score (state ?t) = 0" by code_simp
  have b: "p2_score (state ?t) = 0" by code_simp
  have c: "p1_games_won (state ?t) = 1" by code_simp
  from config_open_at_zero_scores [OF a b, of to_21 p2] r a b c show ?thesis by simp
qed

lemma hist_length: "tt_inv t \<Longrightarrow> length (hist t) = nat (history_index t + 1)"
  by (auto simp: hist_def tt_inv_def)

lemma save_state_hist:
  assumes "tt_inv t"
  shows "hist (save_state t) =
           (if history_index t = 31 then tl (hist t) else hist t) @ [state t]"
proof (rule nth_equalityI)
  show "length (hist (save_state t)) =
        length ((if history_index t = 31 then tl (hist t) else hist t) @ [state t])"
    using assms hist_length [OF assms] hist_length [OF save_state_inv [OF assms]]
    by (auto simp: save_state_index tt_inv_def)
next
  fix i assume "i < length (hist (save_state t))"
  then have i: "i < nat (history_index (save_state t) + 1)"
    using hist_length [OF save_state_inv [OF assms]] by simp
  then have i32: "i < 32" using assms by (auto simp: save_state_index tt_inv_def split: if_splits)
  have l: "length (history t) = 32" "-1 \<le> history_index t" "history_index t \<le> 31"
    using assms by (simp_all add: tt_inv_def)
  show "hist (save_state t) ! i =
        ((if history_index t = 31 then tl (hist t) else hist t) @ [state t]) ! i"
  proof (cases "history_index t = 31")
    case True
    then have "hist t = history t" using l by (simp add: hist_def)
    then show ?thesis
      using True i i32 l save_state_nth [OF l i32]
      by (auto simp: hist_def save_state_index nth_append nth_tl)
  next
    case False
    then show ?thesis
      using i i32 l save_state_nth [OF l i32]
      by (auto simp: hist_def save_state_index nth_append)
  qed
qed

lemma run_append: "run (xs @ ys) t = run ys (run xs t)"
  by (simp add: run_def)

lemma run_Cons: "run (c # cs) t = run cs (exec c t)"
  by (simp add: run_def)

lemma exec_score_hist:
  assumes "tt_inv t" "is_score c"
  shows "hist (exec c t) = (if history_index t = 31 then tl (hist t) else hist t) @ [state t]"
proof -
  have "hist (exec c t) = hist (save_state t)"
    using assms(2)
    by (cases c) (simp_all add: hist_def tt_p1_score_def tt_p2_score_def Let_def)
  then show ?thesis using save_state_hist [OF assms(1)] by simp
qed

lemma run_scores_hist:
  assumes "tt_inv t" "list_all is_score cs" "length (hist t) + length cs \<le> 32"
  shows "\<exists>ys. hist (run cs t) = hist t @ ys \<and> length ys = length cs"
  using assms
proof (induction cs arbitrary: t)
  case Nil
  then show ?case by (simp add: run_def)
next
  case (Cons c cs)
  have inv': "tt_inv (exec c t)" using Cons.prems(1) by (rule exec_inv)
  have "length (hist t) < 32" using Cons.prems(3) by simp
  then have "history_index t \<noteq> 31" using hist_length [OF Cons.prems(1)] by auto
  then have h: "hist (exec c t) = hist t @ [state t]"
    using exec_score_hist [OF Cons.prems(1)] Cons.prems(2) by simp
  then have "length (hist (exec c t)) + length cs \<le> 32" using Cons.prems(3) by simp
  from Cons.IH [OF inv' _ this] Cons.prems(2)
  obtain ys where "hist (run cs (exec c t)) = hist (exec c t) @ ys" "length ys = length cs"
    by auto
  then show ?case using h by (simp add: run_Cons)
qed

lemma run_inv: "tt_inv t \<Longrightarrow> tt_inv (run cs t)"
  unfolding run_def by (induction cs arbitrary: t) (simp_all add: exec_inv)

lemma undo_hist:
  assumes "tt_inv t" "hist t = xs @ [s]"
  shows "state (undo t) = s \<and> hist (undo t) = xs"
proof -
  have len: "nat (history_index t + 1) = Suc (length xs)"
    using hist_length [OF assms(1)] assms(2) by simp
  then have idx: "0 \<le> history_index t" "nat (history_index t) = length xs" by linarith+
  have "history_index t \<le> 31" "length (history t) = 32"
    using assms(1) by (simp_all add: tt_inv_def)
  then have lt: "length xs < length (history t)" using idx by linarith
  have "hist t ! length xs = history t ! length xs"
    using len by (simp add: hist_def)
  then have a: "history t ! length xs = s" using assms(2) by simp
  have "take (length xs) (hist t) = take (length xs) (history t)"
    using len by (simp add: hist_def min_def)
  then have b: "take (length xs) (history t) = xs" using assms(2) by simp
  have c: "nat (history_index t - 1 + 1) = length xs" using idx by simp
  show ?thesis using idx a b c by (simp add: undo_def hist_def)
qed

lemma undo_many:
  assumes "tt_inv t" "hist t = xs @ s # ys"
  shows "state ((undo ^^ Suc (length ys)) t) = s"
  using assms
proof (induction ys arbitrary: t rule: rev_induct)
  case Nil
  then show ?case using undo_hist [of t xs s] by simp
next
  case (snoc y ys)
  have "hist t = (xs @ s # ys) @ [y]" using snoc.prems(2) by simp
  from undo_hist [OF snoc.prems(1) this]
  have "hist (undo t) = xs @ s # ys" by simp
  from snoc.IH [OF undo_inv [OF snoc.prems(1)] this]
  show ?case by (simp add: funpow_swap1)
qed

lemma hist_init: "hist table_tennis_init = []"
  by (simp add: hist_def table_tennis_init_def)

lemma eviction_keeps_last_32:
  assumes "list_all is_score cs" "length cs = 33"
  shows "state ((undo ^^ 32) (run cs table_tennis_init)) =
         state (run (take 1 cs) table_tennis_init)"
proof -
  obtain c1 c2 rest where cs: "cs = c1 # c2 # rest" and lr: "length rest = 31"
    using assms(2) by (cases cs; cases "tl cs") auto
  define mid where "mid = butlast rest"
  define c33 where "c33 = last rest"
  have "rest \<noteq> []" using lr by auto
  then have rest: "rest = mid @ [c33]" by (simp add: mid_def c33_def)
  have lm: "length mid = 30" using lr by (simp add: mid_def)
  have sc: "is_score c1" "is_score c2" "list_all is_score mid" "is_score c33"
    using assms(1) cs rest by simp_all
  define t1 where "t1 = exec c1 table_tennis_init"
  define t2 where "t2 = exec c2 t1"
  define t32 where "t32 = run mid t2"
  define t33 where "t33 = exec c33 t32"
  have i1: "tt_inv t1" unfolding t1_def by (rule exec_inv [OF init_inv])
  have i2: "tt_inv t2" unfolding t2_def by (rule exec_inv [OF i1])
  have i32: "tt_inv t32" unfolding t32_def by (rule run_inv [OF i2])
  have i33: "tt_inv t33" unfolding t33_def by (rule exec_inv [OF i32])
  have "history_index table_tennis_init = -1" by (simp add: table_tennis_init_def)
  then have h1: "hist t1 = [state table_tennis_init]"
    unfolding t1_def using exec_score_hist [OF init_inv sc(1)]
    by (simp add: hist_init)
  have "history_index t1 = 0" using hist_length [OF i1] h1 by simp
  then have h2: "hist t2 = [state table_tennis_init, state t1]"
    unfolding t2_def using exec_score_hist [OF i1 sc(2)] h1 by simp
  obtain ys where h32: "hist t32 = hist t2 @ ys" and ly: "length ys = 30"
    unfolding t32_def using run_scores_hist [OF i2 sc(3)] h2 lm by auto
  have "length (hist t32) = 32" using h32 h2 ly by simp
  then have "history_index t32 = 31" using hist_length [OF i32] by simp
  then have h33: "hist t33 = [] @ state t1 # (ys @ [state t32])"
    unfolding t33_def using exec_score_hist [OF i32 sc(4)] h32 h2 by simp
  have n: "Suc (length (ys @ [state t32])) = 32" using ly by simp
  have u: "state ((undo ^^ 32) t33) = state t1"
    using undo_many [OF i33 h33] unfolding n .
  have r1: "run cs table_tennis_init = t33"
    by (simp add: cs rest run_Cons run_append t33_def t32_def t2_def t1_def run_def)
  have r2: "run (take 1 cs) table_tennis_init = t1"
    by (simp add: cs run_def t1_def)
  show ?thesis by (simp only: r1 r2 u)
qed

lemma first_score_not_init:
  assumes "is_score c"
  shows "state (exec c table_tennis_init) \<noteq> state table_tennis_init"
proof -
  have "p1_score (state (exec P1_score table_tennis_init)) +
        p2_score (state (exec P1_score table_tennis_init)) = 1"
    by code_simp
  moreover have "p1_score (state (exec P2_score table_tennis_init)) +
        p2_score (state (exec P2_score table_tennis_init)) = 1"
    by code_simp
  ultimately
  have "p1_score (state (exec c table_tennis_init)) + p2_score (state (exec c table_tennis_init)) = 1"
    using assms by (cases c) simp_all
  moreover have "p1_score (state table_tennis_init) + p2_score (state table_tennis_init) = 0"
    by code_simp
  ultimately show ?thesis by auto
qed

text \<open>
  C3 (as amended). From the freshly constructed object, any 33 scoring calls followed by
  32 calls of \<open>undo\<close> leave the game state as it was immediately after the first scoring
  call: at the 33rd call the array is full, the snapshot of the initial state is evicted,
  and the oldest snapshot left is the one the second call saved, which is the state after
  the first call. That state is not the initial one.
\<close>

theorem history_eviction_restores_first_call:
  assumes "list_all is_score cs" "length cs = 33"
  shows "state ((undo ^^ 32) (run cs table_tennis_init)) =
           state (run (take 1 cs) table_tennis_init) \<and>
         state ((undo ^^ 32) (run cs table_tennis_init)) \<noteq> state table_tennis_init"
proof -
  obtain c cs' where cs: "cs = c # cs'" using assms(2) by (cases cs) auto
  then have "is_score c" using assms(1) by simp
  from first_score_not_init [OF this]
  have "state (run (take 1 cs) table_tennis_init) \<noteq> state table_tennis_init"
    by (simp add: cs run_def)
  then show ?thesis using eviction_keeps_last_32 [OF assms] by simp
qed

theorem history_eviction_restores_first_call_witness:
  "list_all is_score (replicate 33 P2_score) \<and> length (replicate 33 P2_score) = 33 \<and>
   state ((undo ^^ 32) (run (replicate 33 P2_score) table_tennis_init)) =
     game_state_init\<lparr>p2_score := 1\<rparr>"
proof -
  have a: "list_all is_score (replicate 33 P2_score)" by (simp add: list_all_iff)
  have b: "length (replicate 33 P2_score) = 33" by simp
  have c: "state (run (take 1 (replicate 33 P2_score)) table_tennis_init) =
     game_state_init\<lparr>p2_score := 1\<rparr>" by code_simp
  from history_eviction_restores_first_call [OF a b] a b c show ?thesis by simp
qed

text \<open>
  C3 as stated fails: after 33 points for player one and 32 undos the state is not the
  state after the second scoring call.
\<close>

theorem history_eviction_second_call_counterexample:
  "state ((undo ^^ 32) (run (replicate 33 P1_score) table_tennis_init)) \<noteq>
   state (run (take 2 (replicate 33 P1_score)) table_tennis_init)"
proof -
  have a: "list_all is_score (replicate 33 P1_score)" by (simp add: list_all_iff)
  have b: "length (replicate 33 P1_score) = 33" by simp
  have c: "state (run (take 1 (replicate 33 P1_score)) table_tennis_init) \<noteq>
           state (run (take 2 (replicate 33 P1_score)) table_tennis_init)" by code_simp
  from eviction_keeps_last_32 [OF a b] c show ?thesis by simp
qed

section \<open>Facts about the debounced button\<close>

lemma button_init_inv: "button_inv (avr_button_init pu)"
  by (simp add: button_inv_def avr_button_init_def)

lemma check_states:
  "states (snd (check raw b)) =
     (states b)[unat (counter b) mod 3 :=
        (if pull_up b then (if raw then released else pressed)
         else (if raw then pressed else released))]"
  by (simp add: check_def Let_def)

lemma check_current_action:
  "current_action (snd (check raw b)) = current_action b \<or>
   current_action (snd (check raw b)) = pressed \<or>
   current_action (snd (check raw b)) = released"
  by (simp add: check_def Let_def)

lemma check_inv:
  assumes "button_inv b"
  shows "button_inv (snd (check raw b))"
proof -
  let ?v = "if pull_up b then (if raw then released else pressed)
            else (if raw then pressed else released)"
  have v: "?v = pressed \<or> ?v = released" by simp
  have "set (states (snd (check raw b))) \<subseteq> insert ?v (set (states b))"
    unfolding check_states by (rule set_update_subset_insert)
  then have "list_all (\<lambda>a. a = pressed \<or> a = released) (states (snd (check raw b)))"
    using assms v unfolding list_all_iff button_inv_def by blast
  moreover have "length (states (snd (check raw b))) = 3"
    using assms by (simp add: check_states button_inv_def)
  moreover have "current_action (snd (check raw b)) = pressed \<or>
                 current_action (snd (check raw b)) = released"
    using assms check_current_action [of raw b] by (auto simp: button_inv_def)
  ultimately show ?thesis by (simp add: button_inv_def)
qed

lemma feed_inv: "button_inv b \<Longrightarrow> button_inv (feed raws b)"
  unfolding feed_def by (induction raws arbitrary: b) (simp_all add: check_inv)

lemma button_inv_nth:
  "button_inv b \<Longrightarrow> i < 3 \<Longrightarrow> states b ! i = pressed \<or> states b ! i = released"
  by (simp add: button_inv_def list_all_length)

lemma check_edge:
  assumes "button_inv b"
  shows "(fst (check raw b) \<noteq> none \<longleftrightarrow>
            slots_agree (snd (check raw b)) \<and>
            states (snd (check raw b)) ! 0 \<noteq> current_action b) \<and>
         (fst (check raw b) \<noteq> none \<longrightarrow>
            current_action (snd (check raw b)) = states (snd (check raw b)) ! 0 \<and>
            fst (check raw b) = states (snd (check raw b)) ! 0) \<and>
         (fst (check raw b) = pressed \<longrightarrow>
            current_action b = released \<and> current_action (snd (check raw b)) = pressed) \<and>
         (fst (check raw b) = released \<longrightarrow>
            current_action b = pressed \<and> current_action (snd (check raw b)) = released) \<and>
         (fst (check raw b) = none \<longrightarrow>
            current_action (snd (check raw b)) = current_action b)"
proof -
  have c: "current_action b = pressed \<or> current_action b = released"
    using assms by (simp add: button_inv_def)
  have s: "states (snd (check raw b)) ! 0 = pressed \<or> states (snd (check raw b)) ! 0 = released"
    using button_inv_nth [OF check_inv [OF assms], of 0 raw] by simp
  show ?thesis
    using c s unfolding slots_agree_def check_states
    by (auto simp: check_def Let_def)
qed

lemma check_pull_up: "pull_up (snd (check raw b)) = pull_up b"
  by (simp add: check_def Let_def)

lemma check_counter: "counter (snd (check raw b)) = counter b + 1"
  by (simp add: check_def Let_def)

lemma feed_pull_up: "pull_up (feed raws b) = pull_up b"
  unfolding feed_def by (induction raws arbitrary: b) (simp_all add: check_pull_up)

lemma init_pull_up: "pull_up (avr_button_init pu) = pu"
  by (simp add: avr_button_init_def)

lemma check_stores_classified:
  "states (snd (check raw b)) =
     (states b)[unat (counter b) mod 3 := spec_classify (pull_up b) raw]"
  unfolding check_states by (simp add: spec_classify_def)

text \<open>
  C6. For every sequence of raw samples fed to \<open>check\<close> and every further sample, the
  call stores the classified state of the sample (inverted under the pull-up convention)
  in the slot at the counter modulo 3 and advances the counter. It returns an edge other
  than \<open>none\<close> if and only if, with the sample stored, the three slots hold one state and
  that state differs from the latched one. The latched state then becomes that state and
  the edge names it: \<open>pressed\<close> only on a change from released to pressed, \<open>released\<close>
  only on a change from pressed to released. Every other call returns \<open>none\<close> and leaves
  the latched state as it was.
\<close>

theorem check_edge_iff_stable_change:
  "let b = feed raws (avr_button_init pu);
       edge = fst (check raw b);
       b' = snd (check raw b)
   in length (states b) = 3 \<and>
      states b' = (states b)[unat (counter b) mod 3 := spec_classify pu raw] \<and>
      counter b' = counter b + 1 \<and>
      (edge \<noteq> none \<longleftrightarrow> slots_agree b' \<and> states b' ! 0 \<noteq> current_action b) \<and>
      (edge \<noteq> none \<longrightarrow> current_action b' = states b' ! 0 \<and> edge = states b' ! 0) \<and>
      (edge = pressed \<longrightarrow> current_action b = released \<and> current_action b' = pressed) \<and>
      (edge = released \<longrightarrow> current_action b = pressed \<and> current_action b' = released) \<and>
      (edge = none \<longrightarrow> current_action b' = current_action b)"
proof -
  let ?b = "feed raws (avr_button_init pu)"
  have inv: "button_inv ?b" by (rule feed_inv [OF button_init_inv])
  have l: "length (states ?b) = 3" using inv by (simp add: button_inv_def)
  have s: "states (snd (check raw ?b)) =
      (states ?b)[unat (counter ?b) mod 3 := spec_classify pu raw]"
    by (simp only: check_stores_classified feed_pull_up init_pull_up)
  have c: "counter (snd (check raw ?b)) = counter ?b + 1" by (rule check_counter)
  from l s c check_edge [OF inv, of raw] show ?thesis
    unfolding Let_def by blast
qed

theorem check_edge_iff_stable_change_witness:
  "fst (check False (feed [False, False] (avr_button_init True))) = pressed \<and>
   current_action (feed [False, False] (avr_button_init True)) = released \<and>
   current_action (snd (check False (feed [False, False] (avr_button_init True)))) = pressed \<and>
   slots_agree (snd (check False (feed [False, False] (avr_button_init True)))) \<and>
   states (feed [False, False] (avr_button_init True)) = [pressed, pressed, released] \<and>
   states (snd (check False (feed [False, False] (avr_button_init True)))) =
     [pressed, pressed, pressed]"
proof -
  have e: "fst (check False (feed [False, False] (avr_button_init True))) = pressed"
    by code_simp
  have s: "states (feed [False, False] (avr_button_init True)) = [pressed, pressed, released]"
    by code_simp
  have c: "unat (counter (feed [False, False] (avr_button_init True))) mod 3 = 2"
    by code_simp
  have k: "spec_classify True False = pressed" by (simp add: spec_classify_def)
  from check_edge_iff_stable_change [of "[False, False]" True False] e s c k
  show ?thesis by (simp add: Let_def)
qed

section \<open>Facts about the seven segment display\<close>

lemma current_display_custom [simp]: "current_display (seg_display_custom m sp) = m"
  by (simp add: seg_display_custom_def)

lemma fold_update_ix_length:
  "length (fold (\<lambda>i ps. ps[i := f i (ps ! i)]) [0 ..< n] ps) = length ps"
  by (induction n) simp_all

lemma fold_update_ix_nth:
  "n \<le> length ps \<Longrightarrow> j < length ps \<Longrightarrow>
   fold (\<lambda>i ps. ps[i := f i (ps ! i)]) [0 ..< n] ps ! j = (if j < n then f j (ps ! j) else ps ! j)"
  by (induction n arbitrary: j) (auto simp: fold_update_ix_length nth_list_update less_Suc_eq)

text \<open>Each segment pin takes the level of its bit of the mask.\<close>

lemma seg_display_custom_pins:
  assumes "length (segs sp) = 8" and "j < 8"
  shows "segs (seg_display_custom m sp) ! j = pin_set (m AND push_bit j 1 \<noteq> 0) (segs sp ! j)"
  using assms
    fold_update_ix_nth [where f = "\<lambda>i. pin_set (m AND push_bit i 1 \<noteq> 0)" and n = 8
      and ps = "segs sp" and j = j]
  by (simp add: seg_display_custom_def)

lemma pin_set_twice [simp]: "pin_set a (pin_set b p) = pin_set a p"
  by (cases p) simp_all

lemma fold_update_length:
  "length (fold (\<lambda>i ds. ds[i := f (ds ! i)]) [0 ..< n] ds) = length ds"
  by (induction n) simp_all

lemma fold_update_nth:
  "n \<le> length ds \<Longrightarrow> i < length ds \<Longrightarrow>
   fold (\<lambda>i ds. ds[i := f (ds ! i)]) [0 ..< n] ds ! i = (if i < n then f (ds ! i) else ds ! i)"
  by (induction n arbitrary: i) (auto simp: fold_update_length nth_list_update less_Suc_eq)

lemma clear_digits_digits: "digits (clear_digits d) = map (pin_set False) (digits d)"
  by (rule nth_equalityI)
     (simp_all add: clear_digits_def num_digits_t_def fold_update_length fold_update_nth)

lemma clear_digits_seg [simp]: "seg (clear_digits d) = seg d"
  by (simp add: clear_digits_def)

lemma step_number:
  "fst (display_decimal_step dp i (n, d, fs)) = (if n \<noteq> 0 then n div 10 else n)"
  by (simp add: display_decimal_step_def Let_def)

lemma step_display_digits:
  "digits (fst (snd (display_decimal_step dp i (n, d, fs)))) =
     (digits d)[i := pin_set False (digits d ! i)]"
  by (cases "i < length (digits d)")
     (simp_all add: display_decimal_step_def Let_def split_def list_update_beyond)

lemma step_frames:
  "snd (snd (display_decimal_step dp i (n, d, fs))) =
     fs @ [d\<lparr>seg :=
              (let sp1 = (if n \<noteq> 0 then seg_display_decimal (n mod 10) (seg d)
                          else if i = 0 \<or> (sint dp \<ge> 0 \<and> int i \<le> sint dp)
                          then seg_display_decimal 0 (seg d)
                          else seg_clear (seg d))
               in if int i = sint dp then seg_display_decimal_point True sp1 else sp1),
            digits := (digits d)[i := pin_set True (digits d ! i)]\<rparr>]"
  by (simp add: display_decimal_step_def Let_def split_def)

lemma sevseg_no_dp: "i < 16 \<Longrightarrow> SEVSEG ! i AND NOT SEG_DP = SEVSEG ! i"
proof -
  have "list_all (\<lambda>g. g AND NOT SEG_DP = g) SEVSEG"
    by (simp add: SEVSEG_def SEG_A_def SEG_B_def SEG_C_def SEG_D_def SEG_E_def SEG_F_def
          SEG_G_def SEG_DP_def)
  moreover have "length SEVSEG = 16" by (simp add: SEVSEG_def)
  ultimately show "i < 16 \<Longrightarrow> SEVSEG ! i AND NOT SEG_DP = SEVSEG ! i"
    by (simp add: list_all_length)
qed

lemma div_pow_Suc: "(a::nat) div 10 ^ Suc k = a div 10 ^ k div 10"
  by (metis div_mult2_eq power_Suc2)

lemma step_inv:
  assumes "loop_inv v dp d0 k st" "k < length (digits d0)"
    and "\<forall>p \<in> set (digits d0). pin_set False p = p"
  shows "loop_inv v dp d0 (Suc k) (display_decimal_step dp k st)"
proof -
  obtain n d fs where st: "st = (n, d, fs)" by (cases st) auto
  have n: "unat n = unat v div 10 ^ k" and dg: "digits d = digits d0" and lf: "length fs = k"
    and old: "\<forall>i < k. current_display (seg (fs ! i)) = digit_pattern v dp i \<and>
                  digits (fs ! i) = (digits d0)[i := pin_set True (digits d0 ! i)]"
    using assms(1) by (simp_all add: loop_inv_def st)
  have off: "pin_set False (digits d0 ! k) = digits d0 ! k"
    using assms(2,3) by simp
  have n0: "n \<noteq> 0 \<longleftrightarrow> unat v div 10 ^ k \<noteq> 0"
    using n by (simp add: unat_eq_0 [symmetric])
  have a: "unat (fst (display_decimal_step dp k st)) = unat v div 10 ^ Suc k"
  proof (cases "n = 0")
    case True
    then have "unat v div 10 ^ k = 0" using n by simp
    then have "unat v div 10 ^ Suc k = 0"
      by (simp only: div_pow_Suc)
    then show ?thesis using True by (simp add: st step_number)
  next
    case False
    then show ?thesis
      using n by (simp add: st step_number unat_div div_pow_Suc del: power_Suc)
  qed
  have b: "digits (fst (snd (display_decimal_step dp k st))) = digits d0"
    using off by (simp add: st step_display_digits dg)
  have c: "snd (snd (display_decimal_step dp k st)) ! k =
     d\<lparr>seg :=
              (let sp1 = (if n \<noteq> 0 then seg_display_decimal (n mod 10) (seg d)
                          else if k = 0 \<or> (sint dp \<ge> 0 \<and> int k \<le> sint dp)
                          then seg_display_decimal 0 (seg d)
                          else seg_clear (seg d))
               in if int k = sint dp then seg_display_decimal_point True sp1 else sp1),
            digits := (digits d)[k := pin_set True (digits d ! k)]\<rparr>"
    and c': "\<forall>i < k. snd (snd (display_decimal_step dp k st)) ! i = fs ! i"
    and c'': "length (snd (snd (display_decimal_step dp k st))) = Suc k"
    using lf by (simp_all add: st step_frames nth_append)
  have e: "current_display (seg (snd (snd (display_decimal_step dp k st)) ! k)) =
           digit_pattern v dp k"
    unfolding c using n n0
    by (simp add: Let_def digit_pattern_def spec_digit_glyph_def seg_display_decimal_def
          seg_display_decimal_point_def seg_clear_def unat_mod)
  have f: "digits (snd (snd (display_decimal_step dp k st)) ! k) =
           (digits d0)[k := pin_set True (digits d0 ! k)]"
    unfolding c by (simp add: dg)
  show ?thesis
    unfolding loop_inv_def
    using a b c' c'' e f old
    by (cases "display_decimal_step dp k st") (auto simp: less_Suc_eq)
qed

lemma loop_inv_fold:
  assumes "\<forall>p \<in> set (digits d0). pin_set False p = p"
  shows "k \<le> length (digits d0) \<Longrightarrow>
         loop_inv v dp d0 k (fold (display_decimal_step dp) [0 ..< k] (v, d0, []))"
proof (induction k)
  case 0
  then show ?case by (simp add: loop_inv_def)
next
  case (Suc k)
  then have "loop_inv v dp d0 k (fold (display_decimal_step dp) [0 ..< k] (v, d0, []))"
    and "k < length (digits d0)" by simp_all
  from step_inv [OF this assms] show ?case by simp
qed

lemma display_decimal_frames:
  "length (fst (display_decimal v dp d)) = num_digits_t d"
  "i < num_digits_t d \<Longrightarrow>
     current_display (seg (fst (display_decimal v dp d) ! i)) = digit_pattern v dp i"
  "i < num_digits_t d \<Longrightarrow>
     digits (fst (display_decimal v dp d) ! i) =
       (map (pin_set False) (digits d))[i := pin_set True (digits d ! i)]"
proof -
  let ?d0 = "clear_digits d"
  let ?st = "fold (display_decimal_step dp) [0 ..< num_digits_t ?d0] (v, ?d0, [])"
  have off: "\<forall>p \<in> set (digits ?d0). pin_set False p = p"
    by (auto simp: clear_digits_digits)
  have len: "num_digits_t ?d0 = num_digits_t d"
    by (simp add: num_digits_t_def clear_digits_digits)
  have "loop_inv v dp ?d0 (num_digits_t ?d0) ?st"
    using loop_inv_fold [OF off, of "num_digits_t ?d0" v dp] by (simp add: num_digits_t_def)
  moreover have fr: "fst (display_decimal v dp d) = snd (snd ?st)"
    by (simp add: display_decimal_def Let_def split_def)
  ultimately have
    l: "length (fst (display_decimal v dp d)) = num_digits_t d" and
    a: "\<forall>i < num_digits_t d.
          current_display (seg (fst (display_decimal v dp d) ! i)) = digit_pattern v dp i \<and>
          digits (fst (display_decimal v dp d) ! i) =
            (digits ?d0)[i := pin_set True (digits ?d0 ! i)]"
    unfolding loop_inv_def len by (simp_all add: split_def)
  show "length (fst (display_decimal v dp d)) = num_digits_t d" by (rule l)
  show "i < num_digits_t d \<Longrightarrow>
     current_display (seg (fst (display_decimal v dp d) ! i)) = digit_pattern v dp i"
    using a by simp
  show "i < num_digits_t d \<Longrightarrow>
     digits (fst (display_decimal v dp d) ! i) =
       (map (pin_set False) (digits d))[i := pin_set True (digits d ! i)]"
    using a by (simp add: clear_digits_digits num_digits_t_def)
qed

lemma glyph_no_dp: "spec_digit_glyph n dp i AND NOT SEG_DP = spec_digit_glyph n dp i"
proof -
  have "n div 10 ^ i mod 10 < 16" by (rule less_trans [of _ 10]) simp_all
  then show ?thesis
    using sevseg_no_dp [of 0] by (simp add: spec_digit_glyph_def Let_def sevseg_no_dp)
qed

lemma or_dp_and_not_dp: "(g OR SEG_DP) AND NOT SEG_DP = g AND NOT SEG_DP"
  by (simp add: bit.conj_disj_distrib2)

lemma bit_test: "(m AND push_bit j 1 \<noteq> 0) = bit (m :: 8 word) j"
  by (simp add: bit_iff_and_push_bit_not_eq_0)

lemma pin_set_via_off: "pin_set False p = pin_set False q \<Longrightarrow> pin_set h p = pin_set h q"
  by (cases p; cases q) simp_all

lemma seg_display_custom_length: "length (segs (seg_display_custom m sp)) = length (segs sp)"
  using fold_update_ix_length [where f = "\<lambda>i. pin_set (m AND push_bit i 1 \<noteq> 0)" and n = 8
      and ps = "segs sp"]
  by (simp add: seg_display_custom_def)

lemma custom_shows:
  assumes "seg_same_pins ps0 sp"
  shows "seg_shows ps0 (seg_display_custom m sp)"
  unfolding seg_shows_def
proof (intro conjI allI impI)
  show "length (segs (seg_display_custom m sp)) = 8"
    using assms by (simp add: seg_display_custom_length seg_same_pins_def)
next
  fix j :: nat assume j: "j < 8"
  have l: "length (segs sp) = 8" using assms by (simp add: seg_same_pins_def)
  have "pin_set False (segs sp ! j) = pin_set False (ps0 ! j)"
    using assms j by (simp add: seg_same_pins_def)
  then have "pin_set (bit m j) (segs sp ! j) = pin_set (bit m j) (ps0 ! j)"
    by (rule pin_set_via_off)
  then show "segs (seg_display_custom m sp) ! j =
        pin_set (bit (current_display (seg_display_custom m sp)) j) (ps0 ! j)"
    using seg_display_custom_pins [OF l j, of m, unfolded bit_test] by simp
qed

lemma shows_same: "seg_shows ps0 sp \<Longrightarrow> seg_same_pins ps0 sp"
  by (simp add: seg_shows_def seg_same_pins_def)

lemma decimal_shows: "seg_same_pins ps0 sp \<Longrightarrow> seg_shows ps0 (seg_display_decimal n sp)"
  by (simp add: seg_display_decimal_def custom_shows)

lemma clear_shows: "seg_same_pins ps0 sp \<Longrightarrow> seg_shows ps0 (seg_clear sp)"
  by (simp add: seg_clear_def custom_shows)

lemma decimal_point_shows:
  "seg_same_pins ps0 sp \<Longrightarrow> seg_shows ps0 (seg_display_decimal_point b sp)"
  by (simp add: seg_display_decimal_point_def custom_shows)

lemma step_display_seg:
  "seg (fst (snd (display_decimal_step dp i (n, d, fs)))) =
     seg_clear (seg (last (snd (snd (display_decimal_step dp i (n, d, fs))))))"
  by (simp add: display_decimal_step_def Let_def split_def)

lemma step_frame_shows:
  assumes "seg_same_pins ps0 (seg d)"
  shows "seg_shows ps0 (seg (last (snd (snd (display_decimal_step dp i (n, d, fs))))))"
proof -
  let ?sp1 = "if n \<noteq> 0 then seg_display_decimal (n mod 10) (seg d)
              else if i = 0 \<or> (sint dp \<ge> 0 \<and> int i \<le> sint dp)
              then seg_display_decimal 0 (seg d)
              else seg_clear (seg d)"
  have s1: "seg_shows ps0 ?sp1"
    using assms by (simp add: decimal_shows clear_shows)
  then have "seg_shows ps0 (if int i = sint dp then seg_display_decimal_point True ?sp1 else ?sp1)"
    using decimal_point_shows [OF shows_same [OF s1], of True] by simp
  then show ?thesis by (simp add: step_frames Let_def)
qed

lemma pins_step:
  assumes "pins_inv ps0 k st"
  shows "pins_inv ps0 (Suc k) (display_decimal_step dp k st)"
proof -
  obtain n d fs where st: "st = (n, d, fs)" by (cases st) auto
  have sp: "seg_same_pins ps0 (seg d)" and lf: "length fs = k"
    and old: "\<forall>i < k. seg_shows ps0 (seg (fs ! i))"
    using assms by (simp_all add: pins_inv_def st)
  let ?r = "display_decimal_step dp k (n, d, fs)"
  have fr: "seg_shows ps0 (seg (last (snd (snd ?r))))"
    using sp by (rule step_frame_shows)
  have a: "seg_same_pins ps0 (seg (fst (snd ?r)))"
    unfolding step_display_seg by (rule shows_same [OF clear_shows [OF shows_same [OF fr]]])
  have b: "length (snd (snd ?r)) = Suc k" using lf by (simp add: step_frames)
  have c: "\<forall>i < k. snd (snd ?r) ! i = fs ! i" using lf by (simp add: step_frames nth_append)
  have d: "snd (snd ?r) ! k = last (snd (snd ?r))"
    unfolding step_frames lf [symmetric] by simp
  show ?thesis
    unfolding pins_inv_def st
    using a b c d fr old
    by (cases ?r) (auto simp: less_Suc_eq)
qed

lemma pins_fold:
  assumes "seg_same_pins ps0 (seg d0)"
  shows "pins_inv ps0 k (fold (display_decimal_step dp) [0 ..< k] (v, d0, []))"
proof (induction k)
  case 0
  then show ?case using assms by (simp add: pins_inv_def)
next
  case (Suc k)
  from pins_step [OF this] show ?case by simp
qed

lemma display_decimal_pins:
  assumes "length (segs (seg d)) = 8" and "i < num_digits_t d"
  shows "seg_shows (segs (seg d)) (seg (fst (display_decimal v dp d) ! i))"
proof -
  let ?d0 = "clear_digits d"
  let ?st = "fold (display_decimal_step dp) [0 ..< num_digits_t ?d0] (v, ?d0, [])"
  have "seg_same_pins (segs (seg d)) (seg ?d0)"
    using assms(1) by (simp add: seg_same_pins_def)
  then have "pins_inv (segs (seg d)) (num_digits_t ?d0) ?st" by (rule pins_fold)
  moreover have "fst (display_decimal v dp d) = snd (snd ?st)"
    by (simp add: display_decimal_def Let_def split_def)
  moreover have "num_digits_t ?d0 = num_digits_t d"
    by (simp add: num_digits_t_def clear_digits_digits)
  ultimately show ?thesis
    using assms(2) by (simp add: pins_inv_def split_def)
qed

lemma num_digits_p1_score_display: "num_digits_t p1_score_display = 2"
  by (simp add: num_digits_t_def p1_score_display_def)

lemma segs_p1_score_display:
  "segs (seg p1_score_display) =
     replicate 7 (avr_digital_output_pin False) @ [avr_digital_output_pin_null]"
  by (simp add: p1_score_display_def seven_segment_pins_def)

lemma low_digit: 
  assumes "i < N"
  shows "(v mod 10 ^ N) div 10 ^ i mod 10 = v div 10 ^ i mod (10::nat)"
proof -
  obtain j where N: "N = i + Suc j" using assms less_iff_Suc_add by auto
  have "(v mod 10 ^ N) div 10 ^ i = (v div 10 ^ i) mod 10 ^ Suc j"
    unfolding N power_add
    by (simp only: mod_mult2_eq) simp
  moreover have "(v div 10 ^ i) mod 10 ^ Suc j mod 10 = v div 10 ^ i mod 10"
    by (simp add: mod_mod_cancel)
  ultimately show ?thesis by simp
qed

lemma remaining_nonzero:
  assumes "10 ^ N \<le> (v::nat)" "i < N"
  shows "v div 10 ^ i \<noteq> 0"
proof -
  have "(10::nat) ^ i \<le> 10 ^ N" using assms(2) by (intro power_increasing) simp_all
  then have "10 ^ i \<le> v" using assms(1) by (rule order_trans)
  then show ?thesis by (simp add: div_eq_0_iff)
qed

text \<open>
  C7. For a display of \<open>N\<close> digits, \<open>display_decimal\<close> shows \<open>N\<close> frames, digit 0 first. The
  pattern of digit \<open>i\<close>, the decimal point segment apart, is the glyph of the remaining
  value modulo 10 while the remaining value is not zero; else the glyph of 0 when \<open>i = 0\<close>
  or a decimal point is requested and \<open>i\<close> is at most its index; else blank. The decimal
  point segment is added at the requested digit. In frame \<open>i\<close> the select of digit \<open>i\<close> is
  the one switched on, and each of the eight segment pins is at the level of its bit of
  that pattern: a blank digit has every segment off.
\<close>

theorem display_decimal_renders_digits:
  assumes "i < num_digits_t d"
  shows "length (fst (display_decimal v dp d)) = num_digits_t d \<and>
     current_display (seg (fst (display_decimal v dp d) ! i)) AND NOT SEG_DP =
       spec_digit_glyph (unat v) (sint dp) i \<and>
     current_display (seg (fst (display_decimal v dp d) ! i)) =
       (if int i = sint dp then spec_digit_glyph (unat v) (sint dp) i OR SEG_DP
        else spec_digit_glyph (unat v) (sint dp) i) \<and>
     digits (fst (display_decimal v dp d) ! i) =
       (map (pin_set False) (digits d))[i := pin_set True (digits d ! i)] \<and>
     (length (segs (seg d)) = 8 \<longrightarrow>
        length (segs (seg (fst (display_decimal v dp d) ! i))) = 8 \<and>
        (\<forall>j < 8. segs (seg (fst (display_decimal v dp d) ! i)) ! j =
           pin_set (bit (if int i = sint dp
                         then spec_digit_glyph (unat v) (sint dp) i OR SEG_DP
                         else spec_digit_glyph (unat v) (sint dp) i) j)
                   (segs (seg d) ! j)))"
proof -
  have a: "length (fst (display_decimal v dp d)) = num_digits_t d \<and>
     current_display (seg (fst (display_decimal v dp d) ! i)) AND NOT SEG_DP =
       spec_digit_glyph (unat v) (sint dp) i \<and>
     current_display (seg (fst (display_decimal v dp d) ! i)) =
       (if int i = sint dp then spec_digit_glyph (unat v) (sint dp) i OR SEG_DP
        else spec_digit_glyph (unat v) (sint dp) i) \<and>
     digits (fst (display_decimal v dp d) ! i) =
       (map (pin_set False) (digits d))[i := pin_set True (digits d ! i)]"
    using display_decimal_frames(1) [of v dp d] display_decimal_frames(2,3) [OF assms, of v dp]
    by (simp add: digit_pattern_def or_dp_and_not_dp glyph_no_dp)
  then have c: "current_display (seg (fst (display_decimal v dp d) ! i)) =
       (if int i = sint dp then spec_digit_glyph (unat v) (sint dp) i OR SEG_DP
        else spec_digit_glyph (unat v) (sint dp) i)" by simp
  have "length (segs (seg d)) = 8 \<Longrightarrow>
        length (segs (seg (fst (display_decimal v dp d) ! i))) = 8 \<and>
        (\<forall>j < 8. segs (seg (fst (display_decimal v dp d) ! i)) ! j =
           pin_set (bit (if int i = sint dp
                         then spec_digit_glyph (unat v) (sint dp) i OR SEG_DP
                         else spec_digit_glyph (unat v) (sint dp) i) j)
                   (segs (seg d) ! j))"
    using display_decimal_pins [OF _ assms, of v dp]
    unfolding seg_shows_def c by simp
  with a show ?thesis by blast
qed

theorem display_decimal_renders_digits_witness:
  "(1::nat) < num_digits_t p1_score_display \<and>
   length (segs (seg p1_score_display)) = 8 \<and>
   length (fst (display_decimal 5 (-1) p1_score_display)) = 2 \<and>
   current_display (seg (fst (display_decimal 5 (-1) p1_score_display) ! 0)) = SEVSEG ! 5 \<and>
   current_display (seg (fst (display_decimal 5 (-1) p1_score_display) ! 1)) = 0 \<and>
   current_display (seg (fst (display_decimal 0 1 p1_score_display) ! 1)) = SEVSEG ! 0 OR SEG_DP \<and>
   segs (seg (fst (display_decimal 5 (-1) p1_score_display) ! 0)) ! 0 = avr_digital_output_pin True \<and>
   segs (seg (fst (display_decimal 5 (-1) p1_score_display) ! 0)) ! 1 = avr_digital_output_pin False \<and>
   segs (seg (fst (display_decimal 5 (-1) p1_score_display) ! 1)) ! 0 = avr_digital_output_pin False \<and>
   segs (seg (fst (display_decimal 5 (-1) p1_score_display) ! 1)) ! 6 = avr_digital_output_pin False"
proof -
  have a: "(0::nat) < num_digits_t p1_score_display" "(1::nat) < num_digits_t p1_score_display"
    by (simp_all add: num_digits_p1_score_display)
  have l: "length (segs (seg p1_score_display)) = 8" by (simp add: segs_p1_score_display)
  have g: "spec_digit_glyph (unat (5::8 word)) (sint (-1::8 word)) 0 = SEVSEG ! 5"
    "spec_digit_glyph (unat (5::8 word)) (sint (-1::8 word)) 1 = 0"
    "spec_digit_glyph (unat (0::8 word)) (sint (1::8 word)) 1 = SEVSEG ! 0"
    by (simp_all add: spec_digit_glyph_def)
  have b: "bit (SEVSEG ! 5) (0::nat)" "\<not> bit (SEVSEG ! 5) (1::nat)"
    by code_simp+
  have p: "segs (seg p1_score_display) ! 0 = avr_digital_output_pin False"
    "segs (seg p1_score_display) ! 1 = avr_digital_output_pin False"
    "segs (seg p1_score_display) ! 6 = avr_digital_output_pin False"
    by code_simp+
  have j: "(0::nat) < 8" "(1::nat) < 8" "(6::nat) < 8" by simp_all
  note t0 = display_decimal_renders_digits [OF a(1), of 5 "-1"]
  note t1 = display_decimal_renders_digits [OF a(2), of 5 "-1"]
  note t2 = display_decimal_renders_digits [OF a(2), of 0 1]
  from t0 l j g b p
  have x0: "segs (seg (fst (display_decimal 5 (-1) p1_score_display) ! 0)) ! 0 = avr_digital_output_pin True"
    "segs (seg (fst (display_decimal 5 (-1) p1_score_display) ! 0)) ! 1 = avr_digital_output_pin False"
    by simp_all
  from t1 l j g p
  have x1: "segs (seg (fst (display_decimal 5 (-1) p1_score_display) ! 1)) ! 0 = avr_digital_output_pin False"
    "segs (seg (fst (display_decimal 5 (-1) p1_score_display) ! 1)) ! 6 = avr_digital_output_pin False"
    by simp_all
  from t0 t1 t2 a g l x0 x1
  show ?thesis by (simp add: num_digits_p1_score_display)
qed

text \<open>
  C10. For a display of \<open>N\<close> digits and a value of at least \<open>10 ^ N\<close>, \<open>display_decimal\<close>
  with the default decimal point shows exactly the \<open>N\<close> lowest decimal digits of the
  value, that is the digits of the value modulo \<open>10 ^ N\<close>: in frame \<open>i\<close> the select of digit
  \<open>i\<close> is the one switched on, the mask is the glyph of that digit and each of the eight
  segment pins is at the level of its bit of the glyph. The segment pins take the glyph
  of a number at its value modulo 10 in the table of 16 entries.
\<close>

theorem display_decimal_shows_low_digits:
  assumes "10 ^ num_digits_t d \<le> unat v" and "i < num_digits_t d"
  shows "current_display (seg (fst (display_decimal_default v d) ! i)) =
           SEVSEG ! ((unat v mod 10 ^ num_digits_t d) div 10 ^ i mod 10) \<and>
         length (fst (display_decimal_default v d)) = num_digits_t d \<and>
         current_display (seg_display_decimal n sp) = SEVSEG ! (unat n mod 10) \<and>
         length SEVSEG = 16 \<and>
         digits (fst (display_decimal_default v d) ! i) =
           (map (pin_set False) (digits d))[i := pin_set True (digits d ! i)] \<and>
         (length (segs (seg d)) = 8 \<longrightarrow>
            length (segs (seg (fst (display_decimal_default v d) ! i))) = 8 \<and>
            (\<forall>j < 8. segs (seg (fst (display_decimal_default v d) ! i)) ! j =
               pin_set (bit (SEVSEG ! ((unat v mod 10 ^ num_digits_t d) div 10 ^ i mod 10)) j)
                       (segs (seg d) ! j))) \<and>
         (length (segs sp) = 8 \<longrightarrow>
            (\<forall>j < 8. segs (seg_display_decimal n sp) ! j =
               pin_set (bit (SEVSEG ! (unat n mod 10)) j) (segs sp ! j)))"
proof -
  have "int i \<noteq> sint (-1 :: 8 word)" by simp
  then have "current_display (seg (fst (display_decimal_default v d) ! i)) =
        spec_digit_glyph (unat v) (sint (-1 :: 8 word)) i"
    using display_decimal_frames(2) [OF assms(2), of v "-1"]
    by (simp only: display_decimal_default_def digit_pattern_def if_False)
  also have "\<dots> = SEVSEG ! (unat v div 10 ^ i mod 10)"
    using remaining_nonzero [OF assms] by (simp add: spec_digit_glyph_def Let_def)
  also have "\<dots> = SEVSEG ! ((unat v mod 10 ^ num_digits_t d) div 10 ^ i mod 10)"
    using low_digit [OF assms(2)] by simp
  finally have c: "current_display (seg (fst (display_decimal_default v d) ! i)) =
           SEVSEG ! ((unat v mod 10 ^ num_digits_t d) div 10 ^ i mod 10)" .
  have a: "length (fst (display_decimal_default v d)) = num_digits_t d \<and>
         current_display (seg_display_decimal n sp) = SEVSEG ! (unat n mod 10) \<and>
         length SEVSEG = 16 \<and>
         digits (fst (display_decimal_default v d) ! i) =
           (map (pin_set False) (digits d))[i := pin_set True (digits d ! i)]"
    using display_decimal_frames(1) [of v "-1" d] display_decimal_frames(3) [OF assms(2), of v "-1"]
    by (simp add: display_decimal_default_def seg_display_decimal_def unat_mod SEVSEG_def)
  have p: "length (segs (seg d)) = 8 \<Longrightarrow>
            length (segs (seg (fst (display_decimal_default v d) ! i))) = 8 \<and>
            (\<forall>j < 8. segs (seg (fst (display_decimal_default v d) ! i)) ! j =
               pin_set (bit (SEVSEG ! ((unat v mod 10 ^ num_digits_t d) div 10 ^ i mod 10)) j)
                       (segs (seg d) ! j))"
    using display_decimal_pins [OF _ assms(2), of v "-1"] c
    unfolding seg_shows_def display_decimal_default_def by simp
  have q: "length (segs sp) = 8 \<Longrightarrow>
            (\<forall>j < 8. segs (seg_display_decimal n sp) ! j =
               pin_set (bit (SEVSEG ! (unat n mod 10)) j) (segs sp ! j))"
    using seg_display_custom_pins [of sp _ "SEVSEG ! unat (n mod 10)", unfolded bit_test]
    by (simp add: seg_display_decimal_def unat_mod)
  from c a p q show ?thesis by blast
qed

theorem display_decimal_shows_low_digits_witness:
  "(10::nat) ^ num_digits_t p1_score_display \<le> unat (123 :: 8 word) \<and>
   length (segs (seg p1_score_display)) = 8 \<and>
   current_display (seg (fst (display_decimal_default 123 p1_score_display) ! 0)) = SEVSEG ! 3 \<and>
   current_display (seg (fst (display_decimal_default 123 p1_score_display) ! 1)) = SEVSEG ! 2 \<and>
   length (fst (display_decimal_default 123 p1_score_display)) = 2 \<and>
   segs (seg (fst (display_decimal_default 123 p1_score_display) ! 0)) ! 0 =
     avr_digital_output_pin True \<and>
   segs (seg (fst (display_decimal_default 123 p1_score_display) ! 0)) ! 4 =
     avr_digital_output_pin False \<and>
   segs (seg (fst (display_decimal_default 123 p1_score_display) ! 1)) ! 2 =
     avr_digital_output_pin False \<and>
   digits (fst (display_decimal_default 123 p1_score_display) ! 1) =
     [avr_digital_output_pin False, avr_digital_output_pin True]"
proof -
  have a: "(10::nat) ^ num_digits_t p1_score_display \<le> unat (123 :: 8 word)"
    by (simp add: num_digits_p1_score_display)
  have b: "(0::nat) < num_digits_t p1_score_display" "(1::nat) < num_digits_t p1_score_display"
    by (simp_all add: num_digits_p1_score_display)
  have l: "length (segs (seg p1_score_display)) = 8" by (simp add: segs_p1_score_display)
  have g: "bit (SEVSEG ! 3) (0::nat)" "\<not> bit (SEVSEG ! 3) (4::nat)" "\<not> bit (SEVSEG ! 2) (2::nat)"
    by code_simp+
  have p: "segs (seg p1_score_display) ! 0 = avr_digital_output_pin False"
    "segs (seg p1_score_display) ! 4 = avr_digital_output_pin False"
    "segs (seg p1_score_display) ! 2 = avr_digital_output_pin False"
    by code_simp+
  have dg: "digits p1_score_display = [avr_digital_output_pin False, avr_digital_output_pin False]"
    by (simp add: p1_score_display_def)
  have j: "(0::nat) < 8" "(4::nat) < 8" "(2::nat) < 8" by simp_all
  note t0 = display_decimal_shows_low_digits [OF a b(1)]
  note t1 = display_decimal_shows_low_digits [OF a b(2)]
  from t0 l j g p
  have x0: "segs (seg (fst (display_decimal_default 123 p1_score_display) ! 0)) ! 0 =
     avr_digital_output_pin True"
    "segs (seg (fst (display_decimal_default 123 p1_score_display) ! 0)) ! 4 =
     avr_digital_output_pin False"
    by (simp_all add: num_digits_p1_score_display)
  from t1 l j g p
  have x1: "segs (seg (fst (display_decimal_default 123 p1_score_display) ! 1)) ! 2 =
     avr_digital_output_pin False"
    by (simp_all add: num_digits_p1_score_display)
  from t0 t1 a l x0 x1 dg
  show ?thesis by (simp add: num_digits_p1_score_display)
qed

lemma display_custom_beyond_boundary:
  "num_digits_t d < unat digit \<Longrightarrow> display_custom msk digit d = Done d"
  by (simp add: display_custom_def)

lemma display_custom_at_boundary:
  "unat digit = num_digits_t d \<Longrightarrow>
   display_custom msk digit d =
     Out_of_bounds ((clear_digits d)\<lparr>seg := seg_display_custom msk (seg d)\<rparr>)"
  by (simp add: display_custom_def Let_def num_digits_t_def clear_digits_digits)

text \<open>
  C5 fails at the boundary. On the two-digit score display, \<open>display_custom\<close> with all
  segments and the digit index 2 passes the guard \<open>digit <= num_digits_t\<close>: the segment
  pins are written and the mask on display becomes 255, and the code then reads
  \<open>_digits[2]\<close>, past the end of the array. Only an index above the number of digits is
  ignored (\<open>display_custom_beyond_boundary\<close>).
\<close>

theorem display_custom_boundary_writes_segments:
  "display_custom 255 2 p1_score_display =
     Out_of_bounds
       (p1_score_display
          \<lparr>seg := \<lparr>segs = replicate 7 (avr_digital_output_pin True) @ [avr_digital_output_pin_null],
                    current_display = 255\<rparr>\<rparr>)"
  by code_simp

end
